theory Spec2Isabelle
  imports Complex_Main "HOL-Library.AList"
begin

section \<open>PTO calculator: the balance projection of \<open>PTOCalculator.jsx\<close>\<close>

text \<open>
  Conventions of the embedding.

  \<^item> A JavaScript \<open>Date\<close> object is its time value: an \<open>int\<close> of milliseconds. The local
    time zone is taken to be UTC, without daylight saving, so that the local calendar
    fields (\<open>getDay\<close>, \<open>getDate\<close>, \<open>new Date(y, m, d)\<close>) and \<open>toISOString\<close> read the same clock.
  \<^item> A date string \<open>"YYYY-MM-DD"\<close> is the number of its day (days since 1970-01-01), an
    \<open>int\<close>: the comparison of two such strings is the comparison of their days, and
    \<open>iso y m d\<close> writes the string down. Only well-formed date strings are modelled.
  \<^item> A JavaScript number that holds hours or a percentage is a \<open>rat\<close>: the arithmetic is
    exact, the rounding of IEEE doubles is not modelled.
\<close>

subsection \<open>The calendar of \<open>Date\<close> (ECMAScript, Date objects)\<close>

type_synonym date = int      \<comment> \<open>time value of a \<open>Date\<close>, in milliseconds\<close>
type_synonym dateStr = int   \<comment> \<open>a string \<open>"YYYY-MM-DD"\<close>, as its day number\<close>

definition msPerDay :: int where
  "msPerDay = 1000 * 60 * 60 * 24"

definition InLeapYear :: "int \<Rightarrow> bool" where
  "InLeapYear y = ((y mod 4 = 0 \<and> y mod 100 \<noteq> 0) \<or> y mod 400 = 0)"

definition DayFromYear :: "int \<Rightarrow> int" where
  "DayFromYear y =
     365 * (y - 1970) + (y - 1969) div 4 - (y - 1901) div 100 + (y - 1601) div 400"

text \<open>The number of days of the year before month \<open>m\<close> (0 is January).\<close>

definition monthOffset :: "int \<Rightarrow> bool \<Rightarrow> int" where
  "monthOffset m leap =
     (let l = (if leap then 1 else 0) in
      if m = 0 then 0 else if m = 1 then 31 else if m = 2 then 59 + l
      else if m = 3 then 90 + l else if m = 4 then 120 + l else if m = 5 then 151 + l
      else if m = 6 then 181 + l else if m = 7 then 212 + l else if m = 8 then 243 + l
      else if m = 9 then 273 + l else if m = 10 then 304 + l else 334 + l)"

text \<open>\<open>MakeDay\<close>: months outside 0..11 carry into the year, the day of the month is
  not range checked (day 0 is the last day of the month before).\<close>

definition MakeDay :: "int \<Rightarrow> int \<Rightarrow> int \<Rightarrow> int" where
  "MakeDay year month dt =
     (let ym = year + month div 12; mn = month mod 12
      in DayFromYear ym + monthOffset mn (InLeapYear ym) + dt - 1)"

text \<open>\<open>YearFromTime\<close> is the largest year that starts at or before the day. The search
  starts from a year that is not after it.\<close>

function yearUp :: "int \<Rightarrow> int \<Rightarrow> int" where
  "yearUp d y = (if DayFromYear (y + 1) \<le> d then yearUp d (y + 1) else y)"
  by pat_completeness auto

lemma div_succ_int:
  fixes a n :: int
  assumes n: "0 < n"
  shows "(a + 1) div n = a div n + (if (a + 1) mod n = 0 then 1 else 0)"
proof -
  define q where "q = a div n"
  define r where "r = a mod n"
  have e: "a = n * q + r" by (simp add: q_def r_def)
  have r: "0 \<le> r" "r < n" using n by (simp_all add: r_def)
  show ?thesis
  proof (cases "r + 1 = n")
    case True
    have e': "a + 1 = n * (q + 1) + 0" using e True by (simp add: algebra_simps)
    have "(a + 1) div n = q + 1" by (rule int_div_pos_eq [OF e']) (use n in simp_all)
    moreover have "(a + 1) mod n = 0" by (rule int_mod_pos_eq [OF e']) (use n in simp_all)
    ultimately show ?thesis by (simp add: q_def)
  next
    case False
    have e': "a + 1 = n * q + (r + 1)" using e by simp
    have b: "0 \<le> r + 1" "r + 1 < n" using r False by simp_all
    have "(a + 1) div n = q" by (rule int_div_pos_eq [OF e' b])
    moreover have "(a + 1) mod n = r + 1" by (rule int_mod_pos_eq [OF e' b])
    ultimately show ?thesis using r by (simp add: q_def)
  qed
qed

lemma mod_shift: "(c::int) mod n = 0 \<Longrightarrow> (y - c) mod n = y mod n"
  by (metis mod_diff_right_eq diff_zero)

lemma DayFromYear_Suc:
  "DayFromYear (y + 1) = DayFromYear y + (if InLeapYear y then 366 else 365)"
proof -
  define A where "A = (y - 1969) div 4"
  define B where "B = (y - 1901) div 100"
  define C where "C = (y - 1601) div 400"
  define p4 where "p4 = (y mod 4 = 0)"
  define p100 where "p100 = (y mod 100 = 0)"
  define p400 where "p400 = (y mod 400 = 0)"
  have s: "y + 1 - 1969 = (y - 1969) + 1" "y + 1 - 1901 = (y - 1901) + 1"
    "y + 1 - 1601 = (y - 1601) + 1" by simp_all
  have e: "(y - 1969) + 1 = y - 1968" "(y - 1901) + 1 = y - 1900"
    "(y - 1601) + 1 = y - 1600" by simp_all
  have m4: "((y - 1969) + 1) mod 4 = y mod 4"
    unfolding e by (rule mod_shift) simp
  have m100: "((y - 1901) + 1) mod 100 = y mod 100"
    unfolding e by (rule mod_shift) simp
  have m400: "((y - 1601) + 1) mod 400 = y mod 400"
    unfolding e by (rule mod_shift) simp
  have a: "(y + 1 - 1969) div 4 = A + (if p4 then 1 else 0)"
    unfolding s A_def p4_def m4 [symmetric] by (rule div_succ_int) simp
  have b: "(y + 1 - 1901) div 100 = B + (if p100 then 1 else 0)"
    unfolding s B_def p100_def m100 [symmetric] by (rule div_succ_int) simp
  have c: "(y + 1 - 1601) div 400 = C + (if p400 then 1 else 0)"
    unfolding s C_def p400_def m400 [symmetric] by (rule div_succ_int) simp
  have l: "DayFromYear (y + 1) =
          365 * (y + 1 - 1970) + (A + (if p4 then 1 else 0)) - (B + (if p100 then 1 else 0))
            + (C + (if p400 then 1 else 0))"
    by (simp only: DayFromYear_def a b c)
  have r: "DayFromYear y = 365 * (y - 1970) + A - B + C"
    by (simp only: DayFromYear_def A_def B_def C_def)
  have i: "InLeapYear y = ((p4 \<and> \<not> p100) \<or> p400)"
    by (simp only: InLeapYear_def p4_def p100_def p400_def)
  have "400 dvd y \<Longrightarrow> 100 dvd y" "100 dvd y \<Longrightarrow> 4 dvd y"
    using dvd_trans [of 100 400 y] dvd_trans [of 4 100 y] by simp_all
  then have "p400 \<Longrightarrow> p100" "p100 \<Longrightarrow> p4"
    by (simp_all only: p4_def p100_def p400_def mod_eq_0_iff_dvd)
  then show ?thesis
    unfolding l r i by (cases p4; cases p100; cases p400) simp_all
qed

termination yearUp
proof (relation "measure (\<lambda>(d, y). nat (d - DayFromYear y))")
  show "wf (measure (\<lambda>(d, y). nat (d - DayFromYear y)))" by simp
next
  fix d y :: int
  assume "DayFromYear (y + 1) \<le> d"
  then show "((d, y + 1), (d, y)) \<in> measure (\<lambda>(d, y). nat (d - DayFromYear y))"
    by (simp add: DayFromYear_Suc split: if_splits)
qed

declare yearUp.simps [simp del]

definition YearFromDay :: "int \<Rightarrow> int" where
  "YearFromDay d = yearUp d (1970 + (if 0 \<le> d then d div 366 else d div 365))"

definition DayWithinYear :: "int \<Rightarrow> int" where
  "DayWithinYear d = d - DayFromYear (YearFromDay d)"

definition MonthFromDay :: "int \<Rightarrow> int" where
  "MonthFromDay d =
     (let w = DayWithinYear d; l = (if InLeapYear (YearFromDay d) then 1 else 0) in
      if w < 31 then 0 else if w < 59 + l then 1 else if w < 90 + l then 2
      else if w < 120 + l then 3 else if w < 151 + l then 4 else if w < 181 + l then 5
      else if w < 212 + l then 6 else if w < 243 + l then 7 else if w < 273 + l then 8
      else if w < 304 + l then 9 else if w < 334 + l then 10 else 11)"

definition DateFromDay :: "int \<Rightarrow> int" where
  "DateFromDay d =
     DayWithinYear d - monthOffset (MonthFromDay d) (InLeapYear (YearFromDay d)) + 1"

definition Day :: "date \<Rightarrow> int" where
  "Day t = t div msPerDay"

definition TimeWithinDay :: "date \<Rightarrow> int" where
  "TimeWithinDay t = t mod msPerDay"

definition getFullYear :: "date \<Rightarrow> int" where
  "getFullYear t = YearFromDay (Day t)"

definition getMonth :: "date \<Rightarrow> int" where
  "getMonth t = MonthFromDay (Day t)"

definition getDate :: "date \<Rightarrow> int" where
  "getDate t = DateFromDay (Day t)"

text \<open>\<open>getDay\<close>: 0 is Sunday, 6 is Saturday; 1970-01-01 was a Thursday.\<close>

definition getDay :: "date \<Rightarrow> int" where
  "getDay t = (Day t + 4) mod 7"

text \<open>\<open>new Date(year, month, day)\<close>: local midnight.\<close>

definition newDate :: "int \<Rightarrow> int \<Rightarrow> int \<Rightarrow> date" where
  "newDate year month dt = MakeDay year month dt * msPerDay"

text \<open>\<open>new Date(s + 'T12:00:00')\<close>: local noon of the day the string names.\<close>

definition noon :: "dateStr \<Rightarrow> date" where
  "noon s = s * msPerDay + 12 * 60 * 60 * 1000"

text \<open>\<open>t.toISOString().split('T')[0]\<close>\<close>

definition toISODate :: "date \<Rightarrow> dateStr" where
  "toISODate t = Day t"

text \<open>\<open>t.setDate(v)\<close> and \<open>t.setMonth(v)\<close> rebuild the day from the year, month and day
  of the month and keep the time within the day.\<close>

definition setDate :: "date \<Rightarrow> int \<Rightarrow> date" where
  "setDate t v = MakeDay (getFullYear t) (getMonth t) v * msPerDay + TimeWithinDay t"

definition setMonth :: "date \<Rightarrow> int \<Rightarrow> date" where
  "setMonth t v = MakeDay (getFullYear t) v (getDate t) * msPerDay + TimeWithinDay t"

text \<open>The date string of year \<open>y\<close>, month \<open>m\<close> (1 to 12) and day \<open>d\<close>.\<close>

definition iso :: "int \<Rightarrow> int \<Rightarrow> int \<Rightarrow> dateStr" where
  "iso y m d = MakeDay y (m - 1) d"

text \<open>\<open>t.setDate(t.getDate() + k)\<close> moves a date by \<open>k\<close> days.\<close>

lemma MonthFromDay_range: "0 \<le> MonthFromDay d \<and> MonthFromDay d \<le> 11"
  unfolding MonthFromDay_def Let_def by simp

lemma MakeDay_inverse:
  "MakeDay (YearFromDay d) (MonthFromDay d) (DateFromDay d + k) = d + k"
proof -
  have r: "0 \<le> MonthFromDay d" "MonthFromDay d < 12" using MonthFromDay_range [of d] by simp_all
  have dv: "MonthFromDay d div 12 = 0" using r by (rule div_pos_pos_trivial)
  have md: "MonthFromDay d mod 12 = MonthFromDay d" using r by (rule mod_pos_pos_trivial)
  show ?thesis
    unfolding MakeDay_def Let_def dv md by (simp add: DateFromDay_def DayWithinYear_def)
qed

lemma setDate_getDate: "setDate t (getDate t + k) = t + k * msPerDay"
proof -
  have "t = Day t * msPerDay + TimeWithinDay t"
    by (simp add: Day_def TimeWithinDay_def)
  then show ?thesis
    unfolding setDate_def getDate_def getFullYear_def getMonth_def MakeDay_inverse
    by (simp add: algebra_simps)
qed

subsection \<open>The holiday catalog (\<open>getHolidays\<close>)\<close>

text \<open>The \<open>Map\<close> from date strings to holiday names, in insertion order: \<open>Map.set\<close>
  replaces the value of a key that is present and appends a new key
  (\<open>AList.update\<close>).\<close>

type_synonym holidayMap = "(dateStr \<times> string) list"

definition adjustForWeekend :: "date \<Rightarrow> date" where
  "adjustForWeekend date =
     (let day = getDay date in
      if day = 0 then setDate date (getDate date - 2)
      else if day = 6 then setDate date (getDate date - 1)
      else date)"

text \<open>The two searches for a weekday run until \<open>getDay\<close> returns the weekday asked for;
  for a weekday outside 0..6 they never return, which is the value \<open>None\<close>.\<close>

partial_function (option) getNthWeekday_loop :: "int \<Rightarrow> int \<Rightarrow> date \<Rightarrow> int \<Rightarrow> date option" where
  "getNthWeekday_loop weekday n date count =
     (if count < n then
        (if getDay date = weekday then
           (if count + 1 = n then Some date
            else getNthWeekday_loop weekday n (setDate date (getDate date + 1)) (count + 1))
         else getNthWeekday_loop weekday n (setDate date (getDate date + 1)) count)
      else Some date)"

declare getNthWeekday_loop.simps [code]

definition getNthWeekday :: "int \<Rightarrow> int \<Rightarrow> int \<Rightarrow> int \<Rightarrow> date option" where
  "getNthWeekday year month weekday n = getNthWeekday_loop weekday n (newDate year month 1) 0"

partial_function (option) getLastWeekday_loop :: "int \<Rightarrow> date \<Rightarrow> date option" where
  "getLastWeekday_loop weekday date =
     (if getDay date \<noteq> weekday then getLastWeekday_loop weekday (setDate date (getDate date - 1))
      else Some date)"

declare getLastWeekday_loop.simps [code]

definition getLastWeekday :: "int \<Rightarrow> int \<Rightarrow> int \<Rightarrow> date option" where
  "getLastWeekday year month weekday = getLastWeekday_loop weekday (newDate year (month + 1) 0)"

text \<open>The body of the loop over the years, in the order of the source.\<close>

definition holidaysOfYear :: "int \<Rightarrow> holidayMap \<Rightarrow> holidayMap option" where
  "holidaysOfYear year holidays =
     (let newYears = adjustForWeekend (newDate year 0 1);
          h1 = AList.update (toISODate newYears) ''New Year's Day'' holidays in
      case getNthWeekday year 0 1 3 of None \<Rightarrow> None | Some mlk \<Rightarrow>
      let h2 = AList.update (toISODate mlk) ''MLK Jr Day'' h1 in
      case getLastWeekday year 4 1 of None \<Rightarrow> None | Some memorial \<Rightarrow>
      let h3 = AList.update (toISODate memorial) ''Memorial Day'' h2;
          july4 = adjustForWeekend (newDate year 6 4);
          h4 = AList.update (toISODate july4) ''Independence Day'' h3 in
      case getNthWeekday year 8 1 1 of None \<Rightarrow> None | Some labor \<Rightarrow>
      let h5 = AList.update (toISODate labor) ''Labor Day'' h4 in
      case getNthWeekday year 10 4 4 of None \<Rightarrow> None | Some thanksgiving \<Rightarrow>
      let h6 = AList.update (toISODate thanksgiving) ''Thanksgiving'' h5;
          christmas = adjustForWeekend (newDate year 11 25)
      in Some (AList.update (toISODate christmas) ''Christmas Day'' h6))"

function getHolidays_loop :: "int \<Rightarrow> holidayMap \<Rightarrow> holidayMap option" where
  "getHolidays_loop year holidays =
     (if year \<le> 2028 then
        (case holidaysOfYear year holidays of
           None \<Rightarrow> None
         | Some h \<Rightarrow> getHolidays_loop (year + 1) h)
      else Some holidays)"
  by pat_completeness auto
termination
  by (relation "measure (\<lambda>(year, holidays). nat (2029 - year))") auto

declare getHolidays_loop.simps [simp del]

definition getHolidays :: "holidayMap option" where
  "getHolidays = getHolidays_loop 2025 []"

text \<open>The memoised catalog the component works with. \<open>getHolidays\<close> returns (lemma
  \<open>getHolidays_returns\<close> below), so this is the map it returns.\<close>

definition catalog :: holidayMap where
  "catalog = the getHolidays"

definition isHoliday :: "holidayMap \<Rightarrow> dateStr \<Rightarrow> bool" where
  "isHoliday holidays dateStr = (dateStr \<in> set (map fst holidays))"

definition getHolidayName :: "holidayMap \<Rightarrow> dateStr \<Rightarrow> string option" where
  "getHolidayName holidays dateStr = map_of holidays dateStr"

subsection \<open>Configuration, accruals and the balance\<close>

record config =
  startingPTO :: rat
  startDate :: dateStr
  accrualAmount :: rat
  accrualCadence :: string
  firstAccrualDate :: dateStr

definition defaultConfig :: config where
  "defaultConfig = \<lparr> startingPTO = 2351 / 100, startDate = iso 2026 1 9,
     accrualAmount = 1108 / 100, accrualCadence = ''biweekly'',
     firstAccrualDate = iso 2026 1 23 \<rparr>"

text \<open>\<open>getAllPTODates\<close>: the set of the selected dates and of the holidays from the
  as-of date to twelve months later, as a sorted array.\<close>

definition getAllPTODates :: "holidayMap \<Rightarrow> config \<Rightarrow> dateStr list \<Rightarrow> dateStr list" where
  "getAllPTODates holidays cfg selectedDates =
     (let startDate = noon (startDate cfg);
          endDate = setMonth startDate (getMonth startDate + 12);
          allDates = selectedDates @
            filter (\<lambda>dateStr. let holidayDate = noon dateStr in
                      holidayDate \<ge> startDate \<and> holidayDate \<le> endDate)
              (map fst holidays)
      in sort (remdups allDates))"

function getAccrualDates_loop :: "date \<Rightarrow> date \<Rightarrow> date \<Rightarrow> date list \<Rightarrow> date list" where
  "getAccrualDates_loop start end current dates =
     (if current \<le> end then
        getAccrualDates_loop start end (setDate current (getDate current + 14))
          (if current \<ge> start then dates @ [current] else dates)
      else dates)"
  by pat_completeness auto


termination getAccrualDates_loop
proof (relation "measure (\<lambda>(start, end, current, dates). nat (end - current + 1))")
  show "wf (measure (\<lambda>(start, end, current, dates). nat (end - current + 1)))" by simp
next
  fix start "end" current :: int and dates :: "int list"
  assume "current \<le> end"
  then show "((start, end, setDate current (getDate current + 14),
               if start \<le> current then dates @ [current] else dates),
              start, end, current, dates)
             \<in> measure (\<lambda>(start, end, current, dates). nat (end - current + 1))"
    by (simp add: setDate_getDate msPerDay_def)
qed

declare getAccrualDates_loop.simps [simp del]

text \<open>\<open>getAccrualDates(startDate, endDate)\<close>: the \<open>Date\<close> objects of the accruals.\<close>

definition getAccrualDates :: "config \<Rightarrow> dateStr \<Rightarrow> dateStr \<Rightarrow> date list" where
  "getAccrualDates cfg startDateStr endDateStr =
     getAccrualDates_loop (noon startDateStr) (noon endDateStr) (noon (firstAccrualDate cfg)) []"

definition getPTOBalanceAtDate :: "holidayMap \<Rightarrow> config \<Rightarrow> dateStr list \<Rightarrow> dateStr \<Rightarrow> rat" where
  "getPTOBalanceAtDate holidays cfg selectedDates targetDate =
     (let target = noon targetDate;
          start = noon (startDate cfg)
      in if target < start then startingPTO cfg
         else
           let accrualDates = getAccrualDates cfg (startDate cfg) targetDate;
               totalAccrued = startingPTO cfg + of_nat (length accrualDates) * accrualAmount cfg;
               usedPTO = of_nat (length (filter (\<lambda>d. noon d \<le> target)
                            (getAllPTODates holidays cfg selectedDates))) * 8
           in totalAccrued - usedPTO)"

text \<open>\<open>d.toDateString() === dateObj.toDateString()\<close> compares the calendar days.\<close>

definition wouldExceedBalance :: "holidayMap \<Rightarrow> config \<Rightarrow> dateStr list \<Rightarrow> dateStr \<Rightarrow> bool" where
  "wouldExceedBalance holidays cfg selectedDates date =
     (let dateObj = noon date;
          dayBefore = setDate dateObj (getDate dateObj - 1);
          balance = getPTOBalanceAtDate holidays cfg selectedDates (toISODate dayBefore);
          accrualDates = getAccrualDates cfg (startDate cfg) date;
          hasAccrualOnDate = list_ex (\<lambda>d. Day d = Day dateObj) accrualDates;
          balance1 = (if hasAccrualOnDate then balance + accrualAmount cfg else balance);
          balance2 = (if date \<in> set selectedDates \<or> isHoliday holidays date
                      then balance1 + 8 else balance1)
      in balance2 < 8)"

text \<open>\<open>toggleDate\<close> returns the new value of \<open>selectedDates\<close>.\<close>

definition toggleDate :: "holidayMap \<Rightarrow> dateStr list \<Rightarrow> date \<Rightarrow> dateStr list" where
  "toggleDate holidays selectedDates date =
     (let dateStr = toISODate date in
      if isHoliday holidays dateStr then selectedDates
      else if dateStr \<in> set selectedDates then filter (\<lambda>d. d \<noteq> dateStr) selectedDates
      else sort (selectedDates @ [dateStr]))"


subsection \<open>The timeline: balance points and background segments\<close>

text \<open>\<open>timelineRange\<close>: from the first day of the month of the as-of date to the last
  day of the last month shown, both at local midnight.\<close>

definition timelineRange :: "config \<Rightarrow> int \<Rightarrow> date \<times> date" where
  "timelineRange cfg timelineMonths =
     (let configDate = noon (startDate cfg);
          startDate = newDate (getFullYear configDate) (getMonth configDate) 1;
          endDate = newDate (getFullYear startDate) (getMonth startDate + timelineMonths) 0
      in (startDate, endDate))"

text \<open>\<open>balanceChanges.get(key) || 0\<close>\<close>

definition get_or0 :: "(dateStr \<rightharpoonup> rat) \<Rightarrow> dateStr \<Rightarrow> rat" where
  "get_or0 m key = (case m key of None \<Rightarrow> 0 | Some v \<Rightarrow> v)"

text \<open>The values the memo computes before its loops. \<open>rangeStart\<close> and \<open>rangeEnd\<close> are
  the \<open>startDate\<close> and \<open>endDate\<close> of \<open>timelineRange\<close>.\<close>

record timeline =
  rangeStart :: date
  rangeEnd :: date
  totalDays :: rat
  accrualDates :: "date list"
  sortedPTO :: "dateStr list"
  balanceChanges :: "dateStr \<rightharpoonup> rat"
  startDateStr :: dateStr
  startingBalance :: rat

definition timelineOf :: "holidayMap \<Rightarrow> config \<Rightarrow> dateStr list \<Rightarrow> int \<Rightarrow> timeline" where
  "timelineOf holidays cfg selectedDates timelineMonths =
     (let (tStart, tEnd) = timelineRange cfg timelineMonths;
          accruals = getAccrualDates cfg (startDate cfg) (toISODate tEnd);
          sorted = sort (getAllPTODates holidays cfg selectedDates);
          changes1 = fold (\<lambda>d m. let key = toISODate d
                                 in m(key \<mapsto> get_or0 m key + accrualAmount cfg))
                       accruals Map.empty;
          changes2 = fold (\<lambda>d m. m(d \<mapsto> get_or0 m d - 8)) sorted changes1
      in \<lparr> rangeStart = tStart, rangeEnd = tEnd,
           totalDays = of_int (tEnd - tStart) / of_int msPerDay,
           accrualDates = accruals, sortedPTO = sorted, balanceChanges = changes2,
           startDateStr = toISODate tStart,
           startingBalance =
             getPTOBalanceAtDate holidays cfg selectedDates (toISODate tStart) \<rparr>)"

record balancePoint =
  pointDate :: dateStr
  pointBalance :: rat
  pointPosition :: rat

definition Math_round :: "rat \<Rightarrow> rat" where
  "Math_round x = of_int \<lfloor>x + 1 / 2\<rfloor>"

definition allEventDates :: "timeline \<Rightarrow> dateStr list" where
  "allEventDates tml =
     sort (filter (\<lambda>d. d \<ge> startDateStr tml)
       (remdups ([startDateStr tml] @ map toISODate (accrualDates tml) @ sortedPTO tml)))"

text \<open>One round of \<open>allEventDates.forEach\<close>, on the running balance, the maximum and the
  points pushed so far.\<close>

definition eventStep :: "timeline \<Rightarrow> dateStr \<Rightarrow> rat \<times> rat \<times> balancePoint list
    \<Rightarrow> rat \<times> rat \<times> balancePoint list" where
  "eventStep tml dateStr s =
     (case s of (balance, maxBal, points) \<Rightarrow>
      if dateStr = startDateStr tml then (balance, maxBal, points)
      else
        let change = get_or0 (balanceChanges tml) dateStr;
            balance' = balance + change;
            maxBal' = max maxBal balance';
            dateObj = noon dateStr
        in if dateObj \<le> rangeEnd tml then
             let daysFromStart = of_int (dateObj - rangeStart tml) / of_int msPerDay;
                 position = (daysFromStart / totalDays tml) * 100
             in (balance', maxBal',
                 points @ [\<lparr> pointDate = dateStr, pointBalance = Math_round (balance' * 100) / 100,
                             pointPosition = position \<rparr>])
           else (balance', maxBal', points))"

definition balancePointsOf :: "timeline \<Rightarrow> balancePoint list" where
  "balancePointsOf tml =
     (let balance0 = startingBalance tml;
          (balance, maxBal, points) =
             fold (eventStep tml) (allEventDates tml)
               (balance0, balance0,
                [\<lparr> pointDate = startDateStr tml, pointBalance = balance0, pointPosition = 0 \<rparr>]);
          endDateStr = toISODate (rangeEnd tml)
      in if points = [] \<or> pointDate (last points) \<noteq> endDateStr
         then points @ [\<lparr> pointDate = endDateStr, pointBalance = balance, pointPosition = 100 \<rparr>]
         else points)"

definition balancePoints :: "holidayMap \<Rightarrow> config \<Rightarrow> dateStr list \<Rightarrow> int \<Rightarrow> balancePoint list" where
  "balancePoints holidays cfg selectedDates timelineMonths =
     balancePointsOf (timelineOf holidays cfg selectedDates timelineMonths)"

text \<open>A weekend day counts as PTO only if the Friday before and the Monday after are both
  PTO dates.\<close>

definition isWeekendPTO :: "dateStr list \<Rightarrow> date \<Rightarrow> bool" where
  "isWeekendPTO ptoDates dateObj =
     (let day = getDay dateObj in
      if day = 6 then
        (let friday = setDate dateObj (getDate dateObj - 1);
             monday = setDate dateObj (getDate dateObj + 2)
         in toISODate friday \<in> set ptoDates \<and> toISODate monday \<in> set ptoDates)
      else if day = 0 then
        (let friday = setDate dateObj (getDate dateObj - 2);
             monday = setDate dateObj (getDate dateObj + 1)
         in toISODate friday \<in> set ptoDates \<and> toISODate monday \<in> set ptoDates)
      else False)"

datatype dayType = Work | Pto

record segment =
  segType :: dayType
  highBalance :: bool
  left :: rat
  width :: rat

record threshold =
  thresholdDate :: date
  thresholdPosition :: rat

text \<open>The object pushed when a segment from \<open>segmentStart\<close> to \<open>segEnd\<close> is closed.\<close>

definition closeSegment :: "timeline \<Rightarrow> date \<Rightarrow> date \<Rightarrow> dayType \<Rightarrow> bool \<Rightarrow> segment" where
  "closeSegment tml segmentStart segEnd currentType currentHasHighBalance =
     (let segStartDays = of_int (segmentStart - rangeStart tml) / of_int msPerDay;
          segEndDays = of_int (segEnd - rangeStart tml) / of_int msPerDay
      in \<lparr> segType = currentType,
           highBalance = (if currentType = Work then currentHasHighBalance else False),
           left = (segStartDays / totalDays tml) * 100,
           width = ((segEndDays - segStartDays) / totalDays tml) * 100 \<rparr>)"

record segState =
  segments :: "segment list"
  thresholdDates :: "threshold list"
  currentDate :: date
  segmentStart :: date
  currentType :: dayType
  currentBalance :: rat
  currentHasHighBalance :: bool

text \<open>The body of the loop over the days of the window.\<close>

definition segmentStep :: "timeline \<Rightarrow> segState \<Rightarrow> segState" where
  "segmentStep tml st =
     (let dateStr = toISODate (currentDate st);
          day = getDay (currentDate st);
          isWeekend = (day = 0 \<or> day = 6);
          isPTO = (if isWeekend then isWeekendPTO (sortedPTO tml) (currentDate st)
                   else dateStr \<in> set (sortedPTO tml));
          change = get_or0 (balanceChanges tml) dateStr;
          prevBalance = currentBalance st;
          newBalance = (if change \<noteq> 0 then prevBalance + change else prevBalance);
          hasHighBalance = (newBalance \<ge> 40);
          crossedIntoHighBalance = (\<not> currentHasHighBalance st \<and> hasHighBalance
                                     \<and> prevBalance < 40 \<and> newBalance \<ge> 40);
          newType = (if isPTO then Pto else Work);
          balanceChanged = (newType = Work \<and> hasHighBalance \<noteq> currentHasHighBalance st);
          st1 = st\<lparr> currentBalance := newBalance \<rparr>;
          st2 =
            (if newType \<noteq> currentType st \<or> balanceChanged then
               st1\<lparr> segments :=
                      (if segmentStart st < currentDate st
                       then segments st @ [closeSegment tml (segmentStart st) (currentDate st)
                                            (currentType st) (currentHasHighBalance st)]
                       else segments st),
                    thresholdDates :=
                      (if crossedIntoHighBalance \<and> newType = Work \<and> \<not> isWeekend
                       then thresholdDates st @
                              [\<lparr> thresholdDate = currentDate st,
                                 thresholdPosition =
                                   (of_int (currentDate st - rangeStart tml) / of_int msPerDay
                                      / totalDays tml) * 100 \<rparr>]
                       else thresholdDates st),
                    segmentStart := currentDate st,
                    currentType := newType,
                    currentHasHighBalance := hasHighBalance \<rparr>
             else st1)
      in st2\<lparr> currentDate := setDate (currentDate st) (getDate (currentDate st) + 1) \<rparr>)"







subsection \<open>Notions used in the proofs about the segments\<close>



section \<open>Properties\<close>

subsection \<open>Dates at midnight and at noon\<close>

lemma msPerDay_pos: "0 < msPerDay"
  by (simp add: msPerDay_def)

lemma Day_midnight: "Day (d * msPerDay) = d"
  using msPerDay_pos by (simp add: Day_def)

lemma Day_noon: "Day (noon s) = s"
proof -
  have "(s * msPerDay + 43200000) div msPerDay = s"
    by (rule int_div_pos_eq [of _ _ _ 43200000]) (simp_all add: msPerDay_def)
  then show ?thesis by (simp add: Day_def noon_def)
qed

lemma getDay_midnight: "getDay (d * msPerDay) = (d + 4) mod 7"
  by (simp add: getDay_def Day_midnight)


lemma toISODate_midnight: "toISODate (d * msPerDay) = d"
  by (simp add: toISODate_def Day_midnight)

lemma toISODate_noon: "toISODate (noon s) = s"
  by (simp add: toISODate_def Day_noon)

lemma setDate_getDate_minus: "setDate t (getDate t - k) = t - k * msPerDay"
  using setDate_getDate [of t "- k"] by simp

lemma setDate_midnight: "setDate (d * msPerDay) (getDate (d * msPerDay) + k) = (d + k) * msPerDay"
  unfolding setDate_getDate by (simp add: algebra_simps)

lemma setDate_midnight_minus:
  "setDate (d * msPerDay) (getDate (d * msPerDay) - k) = (d - k) * msPerDay"
  unfolding setDate_getDate_minus by (simp add: algebra_simps)

lemma setDate_noon: "setDate (noon s) (getDate (noon s) + k) = noon (s + k)"
  unfolding setDate_getDate by (simp add: noon_def algebra_simps)

lemma setDate_noon_minus: "setDate (noon s) (getDate (noon s) - k) = noon (s - k)"
  unfolding setDate_getDate_minus by (simp add: noon_def algebra_simps)

lemma noon_le_iff: "noon a \<le> noon b \<longleftrightarrow> a \<le> b"
  using msPerDay_pos by (simp add: noon_def)

lemma noon_less_iff: "noon a < noon b \<longleftrightarrow> a < b"
  using msPerDay_pos by (simp add: noon_def)

lemma noon_eq_iff: "noon a = noon b \<longleftrightarrow> a = b"
  using msPerDay_pos by (simp add: noon_def)

lemmas day_eval = newDate_def MakeDay_def DayFromYear_def InLeapYear_def monthOffset_def
  iso_def Let_def getDay_midnight toISODate_midnight setDate_midnight setDate_midnight_minus

subsection \<open>The catalog that \<open>getHolidays\<close> returns\<close>

lemma getHolidays_returns:
  "getHolidays = Some
    [(iso 2025 1 1, ''New Year's Day''), (iso 2025 1 20, ''MLK Jr Day''),
     (iso 2025 5 26, ''Memorial Day''), (iso 2025 7 4, ''Independence Day''),
     (iso 2025 9 1, ''Labor Day''), (iso 2025 11 27, ''Thanksgiving''),
     (iso 2025 12 25, ''Christmas Day''),
     (iso 2026 1 1, ''New Year's Day''), (iso 2026 1 19, ''MLK Jr Day''),
     (iso 2026 5 25, ''Memorial Day''), (iso 2026 7 3, ''Independence Day''),
     (iso 2026 9 7, ''Labor Day''), (iso 2026 11 26, ''Thanksgiving''),
     (iso 2026 12 25, ''Christmas Day''),
     (iso 2027 1 1, ''New Year's Day''), (iso 2027 1 18, ''MLK Jr Day''),
     (iso 2027 5 31, ''Memorial Day''), (iso 2027 7 2, ''Independence Day''),
     (iso 2027 9 6, ''Labor Day''), (iso 2027 11 25, ''Thanksgiving''),
     (iso 2027 12 24, ''Christmas Day''),
     (iso 2027 12 31, ''New Year's Day''), (iso 2028 1 17, ''MLK Jr Day''),
     (iso 2028 5 29, ''Memorial Day''), (iso 2028 7 4, ''Independence Day''),
     (iso 2028 9 4, ''Labor Day''), (iso 2028 11 23, ''Thanksgiving''),
     (iso 2028 12 25, ''Christmas Day'')]"
  unfolding getHolidays_def
  by (simp add: getHolidays_loop.simps holidaysOfYear_def getNthWeekday_def
      getNthWeekday_loop.simps getLastWeekday_def getLastWeekday_loop.simps
      adjustForWeekend_def day_eval)

lemma catalog_eq:
  "catalog =
    [(20089, ''New Year's Day''), (20108, ''MLK Jr Day''), (20234, ''Memorial Day''),
     (20273, ''Independence Day''), (20332, ''Labor Day''), (20419, ''Thanksgiving''),
     (20447, ''Christmas Day''),
     (20454, ''New Year's Day''), (20472, ''MLK Jr Day''), (20598, ''Memorial Day''),
     (20637, ''Independence Day''), (20703, ''Labor Day''), (20783, ''Thanksgiving''),
     (20812, ''Christmas Day''),
     (20819, ''New Year's Day''), (20836, ''MLK Jr Day''), (20969, ''Memorial Day''),
     (21001, ''Independence Day''), (21067, ''Labor Day''), (21147, ''Thanksgiving''),
     (21176, ''Christmas Day''),
     (21183, ''New Year's Day''), (21200, ''MLK Jr Day''), (21333, ''Memorial Day''),
     (21369, ''Independence Day''), (21431, ''Labor Day''), (21511, ''Thanksgiving''),
     (21543, ''Christmas Day'')]"
  unfolding catalog_def getHolidays_returns
  by (simp add: iso_def MakeDay_def DayFromYear_def InLeapYear_def monthOffset_def)

declare catalog_eq [code]

subsection \<open>Balances of the default configuration\<close>

text \<open>
  C2 (as stated): with the default configuration and no selected date, the balance at
  2026-01-22 is 23.51 and the balance at 2026-01-23 is 34.59. This fails: Martin Luther
  King Jr Day, 2026-01-19, lies between the as-of date and both dates and is counted as
  eight hours of usage.
\<close>

theorem C2_default_balances_counterexample:
  "\<not> (getPTOBalanceAtDate catalog defaultConfig [] (iso 2026 1 22) = 2351 / 100
      \<and> getPTOBalanceAtDate catalog defaultConfig [] (iso 2026 1 23) = 3459 / 100)"
  by code_simp

text \<open>
  C2 (amended): with the default configuration and no selected date, the balance at
  2026-01-22 is 15.51 and the balance at 2026-01-23 is 26.59, the holiday of 2026-01-19
  being counted; the day before the holiday, 2026-01-18, the balance is still 23.51.
\<close>

theorem C2_default_balances:
  "getPTOBalanceAtDate catalog defaultConfig [] (iso 2026 1 22) = 1551 / 100
   \<and> getPTOBalanceAtDate catalog defaultConfig [] (iso 2026 1 23) = 2659 / 100
   \<and> getPTOBalanceAtDate catalog defaultConfig [] (iso 2026 1 18) = 2351 / 100
   \<and> getHolidayName catalog (iso 2026 1 19) = Some ''MLK Jr Day''"
  by code_simp

subsection \<open>The accrual dates\<close>

lemma getAccrualDates_loop_set:
  "set (getAccrualDates_loop start end current dates) =
     set dates \<union> {t. \<exists>k::nat. t = current + int k * (14 * msPerDay) \<and> t \<le> end \<and> start \<le> t}"
proof (induction start "end" current dates rule: getAccrualDates_loop.induct)
  case (1 start "end" current dates)
  let ?G = "\<lambda>c. {t. \<exists>k::nat. t = c + int k * (14 * msPerDay) \<and> t \<le> end \<and> start \<le> t}"
  show ?case
  proof (cases "current \<le> end")
    case False
    have e: "?G current = {}"
    proof -
      have "t \<notin> ?G current" for t
      proof
        assume "t \<in> ?G current"
        then obtain k :: nat where k: "t = current + int k * (14 * msPerDay)" "t \<le> end"
          by blast
        have "0 \<le> int k * (14 * msPerDay)" using msPerDay_pos by simp
        with k False show False by linarith
      qed
      then show ?thesis by blast
    qed
    have "getAccrualDates_loop start end current dates = dates"
      using False by (simp add: getAccrualDates_loop.simps [of start "end" current])
    then show ?thesis unfolding e by simp
  next
    case True
    have step: "?G current = (if start \<le> current then {current} else {}) \<union> ?G (current + 14 * msPerDay)"
    proof (intro set_eqI iffI)
      fix t assume "t \<in> ?G current"
      then obtain k :: nat where k: "t = current + int k * (14 * msPerDay)" "t \<le> end" "start \<le> t"
        by blast
      show "t \<in> (if start \<le> current then {current} else {}) \<union> ?G (current + 14 * msPerDay)"
      proof (cases k)
        case 0
        with k show ?thesis by simp
      next
        case (Suc j)
        with k have "t = current + 14 * msPerDay + int j * (14 * msPerDay)"
          by (simp add: algebra_simps)
        with k show ?thesis by blast
      qed
    next
      fix t assume t: "t \<in> (if start \<le> current then {current} else {}) \<union> ?G (current + 14 * msPerDay)"
      show "t \<in> ?G current"
      proof (cases "t \<in> ?G (current + 14 * msPerDay)")
        case True
        then obtain j :: nat where j: "t = current + 14 * msPerDay + int j * (14 * msPerDay)"
          "t \<le> end" "start \<le> t" by blast
        then have "t = current + int (Suc j) * (14 * msPerDay)" by (simp add: algebra_simps)
        with j show ?thesis by blast
      next
        case False
        with t have "t = current" "start \<le> current" by (auto split: if_splits)
        then have "t = current + int 0 * (14 * msPerDay)" "t \<le> end" "start \<le> t"
          using True by simp_all
        then show ?thesis by blast
      qed
    qed
    have "set (getAccrualDates_loop start end current dates) =
          set (getAccrualDates_loop start end (setDate current (getDate current + 14))
                 (if current \<ge> start then dates @ [current] else dates))"
      using True by (simp add: getAccrualDates_loop.simps [of start "end" current])
    also have "\<dots> = set (if current \<ge> start then dates @ [current] else dates)
                    \<union> ?G (current + 14 * msPerDay)"
      using "1.IH" [OF True] by (simp add: setDate_getDate)
    also have "\<dots> = set dates \<union> ?G current"
      unfolding step by auto
    finally show ?thesis .
  qed
qed

lemma getAccrualDates_loop_sorted:
  "sorted_wrt (<) dates \<Longrightarrow> \<forall>x\<in>set dates. x < current
     \<Longrightarrow> sorted_wrt (<) (getAccrualDates_loop start end current dates)"
proof (induction start "end" current dates rule: getAccrualDates_loop.induct)
  case (1 start "end" current dates)
  show ?case
  proof (cases "current \<le> end")
    case False
    with "1.prems" show ?thesis by (simp add: getAccrualDates_loop.simps [of start "end" current])
  next
    case True
    let ?dates = "if current \<ge> start then dates @ [current] else dates"
    have s: "sorted_wrt (<) ?dates"
      using "1.prems" by (simp add: sorted_wrt_append)
    have b: "\<forall>x\<in>set ?dates. x < setDate current (getDate current + 14)"
      using "1.prems" msPerDay_pos by (auto simp: setDate_getDate)
    show ?thesis
      using "1.IH" [OF True s b] True
      by (simp add: getAccrualDates_loop.simps [of start "end" current])
  qed
qed

lemma on_grid_iff:
  "(\<exists>k::nat. d = f + 14 * int k) \<longleftrightarrow> f \<le> d \<and> (d - f) mod 14 = (0::int)"
proof
  assume "\<exists>k::nat. d = f + 14 * int k"
  then obtain k :: nat where "d = f + 14 * int k" ..
  then have "f \<le> d" and "d - f = 14 * int k" by simp_all
  then show "f \<le> d \<and> (d - f) mod 14 = 0" by (simp only: mod_mult_self1_is_0 simp_thms)
next
  assume a: "f \<le> d \<and> (d - f) mod 14 = 0"
  then have "14 dvd (d - f)" by (simp add: mod_eq_0_iff_dvd)
  then obtain q where q: "d - f = 14 * q" by (auto simp: dvd_def)
  with a have "0 \<le> q" by simp
  then have "d = f + 14 * int (nat q)" using q by simp
  then show "\<exists>k::nat. d = f + 14 * int k" ..
qed

lemma noon_grid: "noon f + int k * (14 * msPerDay) = noon (f + 14 * int k)"
  by (simp add: noon_def algebra_simps)

lemma set_getAccrualDates:
  "set (getAccrualDates cfg s e) =
     noon ` {d. s \<le> d \<and> d \<le> e \<and> firstAccrualDate cfg \<le> d
               \<and> (d - firstAccrualDate cfg) mod 14 = 0}"
proof -
  let ?f = "firstAccrualDate cfg"
  have "set (getAccrualDates cfg s e) =
          {t. \<exists>k::nat. t = noon (?f + 14 * int k) \<and> t \<le> noon e \<and> noon s \<le> t}"
    by (simp add: getAccrualDates_def getAccrualDates_loop_set noon_grid)
  also have "\<dots> = noon ` {d. s \<le> d \<and> d \<le> e \<and> (\<exists>k::nat. d = ?f + 14 * int k)}"
    by (auto simp: noon_le_iff image_iff)
  also have "\<dots> = noon ` {d. s \<le> d \<and> d \<le> e \<and> ?f \<le> d \<and> (d - ?f) mod 14 = 0}"
    by (simp only: on_grid_iff)
  finally show ?thesis .
qed

lemma sorted_getAccrualDates: "sorted_wrt (<) (getAccrualDates cfg s e)"
  unfolding getAccrualDates_def by (rule getAccrualDates_loop_sorted) simp_all

text \<open>
  C7: for range bounds \<open>rangeStart \<le> rangeEnd\<close>, \<open>getAccrualDates\<close> returns a strictly
  ascending sequence; the dates returned are exactly the days \<open>d\<close> (as \<open>Date\<close> objects at
  noon) with \<open>rangeStart \<le> d \<le> rangeEnd\<close>, \<open>d \<ge> firstAccrualDate\<close> and \<open>d - firstAccrualDate\<close>
  a multiple of 14 days: every returned date is on the grid inside the range, and every
  date on the grid inside the range is returned.
\<close>

theorem C7_accrual_dates:
  assumes "rs \<le> re"
  shows "sorted_wrt (<) (getAccrualDates cfg rs re)
    \<and> (\<forall>t \<in> set (getAccrualDates cfg rs re).
          \<exists>d. t = noon d \<and> rs \<le> d \<and> d \<le> re \<and> firstAccrualDate cfg \<le> d
               \<and> (d - firstAccrualDate cfg) mod 14 = 0)
    \<and> (\<forall>d. rs \<le> d \<and> d \<le> re \<and> firstAccrualDate cfg \<le> d
               \<and> (d - firstAccrualDate cfg) mod 14 = 0
          \<longrightarrow> noon d \<in> set (getAccrualDates cfg rs re))"
proof (intro conjI ballI allI impI)
  show "sorted_wrt (<) (getAccrualDates cfg rs re)"
    by (rule sorted_getAccrualDates)
next
  fix t assume "t \<in> set (getAccrualDates cfg rs re)"
  then have "t \<in> noon ` {d. rs \<le> d \<and> d \<le> re \<and> firstAccrualDate cfg \<le> d
               \<and> (d - firstAccrualDate cfg) mod 14 = 0}"
    by (simp only: set_getAccrualDates)
  then obtain d where "t = noon d" and "d \<in> {d. rs \<le> d \<and> d \<le> re \<and> firstAccrualDate cfg \<le> d
               \<and> (d - firstAccrualDate cfg) mod 14 = 0}"
    by (rule imageE)
  then have "t = noon d \<and> rs \<le> d \<and> d \<le> re \<and> firstAccrualDate cfg \<le> d
               \<and> (d - firstAccrualDate cfg) mod 14 = 0"
    by (simp only: mem_Collect_eq simp_thms)
  then show "\<exists>d. t = noon d \<and> rs \<le> d \<and> d \<le> re \<and> firstAccrualDate cfg \<le> d
               \<and> (d - firstAccrualDate cfg) mod 14 = 0" ..
next
  fix d assume "rs \<le> d \<and> d \<le> re \<and> firstAccrualDate cfg \<le> d
               \<and> (d - firstAccrualDate cfg) mod 14 = 0"
  then have "d \<in> {d. rs \<le> d \<and> d \<le> re \<and> firstAccrualDate cfg \<le> d
               \<and> (d - firstAccrualDate cfg) mod 14 = 0}"
    by (simp only: mem_Collect_eq)
  then have "noon d \<in> noon ` {d. rs \<le> d \<and> d \<le> re \<and> firstAccrualDate cfg \<le> d
               \<and> (d - firstAccrualDate cfg) mod 14 = 0}"
    by (rule imageI)
  then show "noon d \<in> set (getAccrualDates cfg rs re)"
    by (simp only: set_getAccrualDates)
qed

theorem C7_accrual_dates_witness:
  "iso 2026 1 9 \<le> iso 2026 2 20
   \<and> getAccrualDates defaultConfig (iso 2026 1 9) (iso 2026 2 20)
       = [noon (iso 2026 1 23), noon (iso 2026 2 6), noon (iso 2026 2 20)]
   \<and> sorted_wrt (<) (getAccrualDates defaultConfig (iso 2026 1 9) (iso 2026 2 20))
   \<and> noon (iso 2026 2 6) \<in> set (getAccrualDates defaultConfig (iso 2026 1 9) (iso 2026 2 20))"
proof -
  have h: "iso 2026 1 9 \<le> iso 2026 2 20" by code_simp
  have e: "getAccrualDates defaultConfig (iso 2026 1 9) (iso 2026 2 20)
       = [noon (iso 2026 1 23), noon (iso 2026 2 6), noon (iso 2026 2 20)]" by code_simp
  have g: "iso 2026 1 9 \<le> iso 2026 2 6 \<and> iso 2026 2 6 \<le> iso 2026 2 20
      \<and> firstAccrualDate defaultConfig \<le> iso 2026 2 6
      \<and> (iso 2026 2 6 - firstAccrualDate defaultConfig) mod 14 = 0" by code_simp
  note c = C7_accrual_dates [OF h, of defaultConfig]
  have s: "sorted_wrt (<) (getAccrualDates defaultConfig (iso 2026 1 9) (iso 2026 2 20))"
    by (rule conjunct1 [OF c])
  have m: "noon (iso 2026 2 6) \<in> set (getAccrualDates defaultConfig (iso 2026 1 9) (iso 2026 2 20))"
    by (rule mp [OF spec [OF conjunct2 [OF conjunct2 [OF c]]] g])
  show ?thesis
    by (rule conjI [OF h conjI [OF e conjI [OF s m]]])
qed

lemma accrual_date_iff:
  "noon d \<in> set (getAccrualDates cfg s e) \<longleftrightarrow>
     s \<le> d \<and> d \<le> e \<and> firstAccrualDate cfg \<le> d \<and> (d - firstAccrualDate cfg) mod 14 = 0"
proof -
  have "inj noon" by (rule injI) (simp only: noon_eq_iff)
  then have "noon d \<in> noon ` A \<longleftrightarrow> d \<in> A" for A by (rule inj_image_mem_iff)
  then show ?thesis by (simp only: set_getAccrualDates mem_Collect_eq)
qed

lemma hasAccrualOnDate_iff:
  "list_ex (\<lambda>a. Day a = Day (noon d)) (getAccrualDates cfg s e) \<longleftrightarrow>
     noon d \<in> set (getAccrualDates cfg s e)"
proof -
  have "Day a = Day (noon d) \<longleftrightarrow> a = noon d" if "a \<in> set (getAccrualDates cfg s e)" for a
  proof -
    from that obtain x where "a = noon x" unfolding set_getAccrualDates by (rule imageE)
    then show ?thesis by (simp only: Day_noon noon_eq_iff)
  qed
  then show ?thesis by (auto simp only: list_ex_iff)
qed

subsection \<open>The accrual cadence\<close>

text \<open>
  C5 (as stated): a configuration whose \<open>accrualCadence\<close> is not \<open>'biweekly'\<close> is refused
  with an \<open>UnsupportedCadence\<close> error, and only the biweekly cadence produces accrual
  dates. This fails: the field is never read, no operation returns an error, and a
  configuration with the cadence \<open>'monthly'\<close> gets the accruals of the 14-day step.
\<close>

theorem C5_cadence_counterexample:
  "accrualCadence (defaultConfig\<lparr>accrualCadence := ''monthly''\<rparr>) \<noteq> ''biweekly''
   \<and> getAccrualDates (defaultConfig\<lparr>accrualCadence := ''monthly''\<rparr>) (iso 2026 1 9) (iso 2026 2 6)
       = [noon (iso 2026 1 23), noon (iso 2026 2 6)]
   \<and> getPTOBalanceAtDate catalog (defaultConfig\<lparr>accrualCadence := ''monthly''\<rparr>) []
         (iso 2026 1 23) = 2659 / 100"
  by code_simp

text \<open>
  C5 (amended): the value of \<open>accrualCadence\<close> has no effect. For every configuration and
  every cadence value, the accrual dates, the PTO dates, the balance at any date and the
  overdraft warning are those of the same configuration with any other cadence value: the
  14-day step is the only one there is, and no configuration is refused.
\<close>

theorem C5_cadence_ignored:
  "getAccrualDates (cfg\<lparr>accrualCadence := c\<rparr>) s e = getAccrualDates cfg s e
   \<and> getAllPTODates H (cfg\<lparr>accrualCadence := c\<rparr>) sel = getAllPTODates H cfg sel
   \<and> getPTOBalanceAtDate H (cfg\<lparr>accrualCadence := c\<rparr>) sel t = getPTOBalanceAtDate H cfg sel t
   \<and> wouldExceedBalance H (cfg\<lparr>accrualCadence := c\<rparr>) sel t = wouldExceedBalance H cfg sel t"
proof -
  let ?cfg = "cfg\<lparr>accrualCadence := c\<rparr>"
  have a: "getAccrualDates ?cfg s e = getAccrualDates cfg s e" for s e
    by (simp add: getAccrualDates_def)
  have b: "getAllPTODates H ?cfg sel = getAllPTODates H cfg sel"
    by (simp add: getAllPTODates_def)
  have c: "getPTOBalanceAtDate H ?cfg sel t = getPTOBalanceAtDate H cfg sel t" for t
    unfolding getPTOBalanceAtDate_def Let_def a b by simp
  have d: "wouldExceedBalance H ?cfg sel t = wouldExceedBalance H cfg sel t"
    unfolding wouldExceedBalance_def Let_def a c by simp
  from a b c d show ?thesis by simp
qed

subsection \<open>The overdraft warning\<close>

text \<open>
  C3 (as stated): \<open>wouldExceedBalance d\<close> holds if and only if the balance of the day
  before \<open>d\<close>, plus one accrual when \<open>d\<close> is an accrual date, plus 8, is less than 8, the 8
  being added for every date. This fails: with a starting balance of 5 hours and no
  selected date, Monday 2026-01-12 (no holiday, no accrual) is warned about, while
  \<open>5 + 8 < 8\<close> is false.
\<close>

theorem C3_wouldExceedBalance_counterexample:
  "wouldExceedBalance catalog (defaultConfig\<lparr>startingPTO := 5\<rparr>) [] (iso 2026 1 12)
   \<noteq> (getPTOBalanceAtDate catalog (defaultConfig\<lparr>startingPTO := 5\<rparr>) [] (iso 2026 1 12 - 1)
        + (if noon (iso 2026 1 12)
                \<in> set (getAccrualDates (defaultConfig\<lparr>startingPTO := 5\<rparr>)
                         (startDate (defaultConfig\<lparr>startingPTO := 5\<rparr>)) (iso 2026 1 12))
           then accrualAmount (defaultConfig\<lparr>startingPTO := 5\<rparr>) else 0)
        + 8 < 8)"
  by code_simp

text \<open>
  C3 (amended): \<open>wouldExceedBalance d\<close> holds if and only if the balance of the day before
  \<open>d\<close>, plus one accrual when \<open>d\<close> is an accrual date at or after the as-of date, plus 8
  only when \<open>d\<close> is a selected date or a holiday of the catalog, is less than 8.
\<close>

theorem C3_wouldExceedBalance:
  "wouldExceedBalance H cfg sel d \<longleftrightarrow>
     getPTOBalanceAtDate H cfg sel (d - 1)
       + (if startDate cfg \<le> d \<and> firstAccrualDate cfg \<le> d
             \<and> (d - firstAccrualDate cfg) mod 14 = 0
          then accrualAmount cfg else 0)
       + (if d \<in> set sel \<or> isHoliday H d then 8 else 0) < 8"
proof -
  have a: "list_ex (\<lambda>a. Day a = Day (noon d)) (getAccrualDates cfg (startDate cfg) d)
      \<longleftrightarrow> startDate cfg \<le> d \<and> firstAccrualDate cfg \<le> d
             \<and> (d - firstAccrualDate cfg) mod 14 = 0"
    unfolding hasAccrualOnDate_iff accrual_date_iff by (simp only: order_refl simp_thms)
  define g where "g = (startDate cfg \<le> d \<and> firstAccrualDate cfg \<le> d
             \<and> (d - firstAccrualDate cfg) mod 14 = 0)"
  show ?thesis
    unfolding wouldExceedBalance_def Let_def a setDate_noon_minus toISODate_noon g_def [symmetric]
    by (cases g; cases "d \<in> set sel \<or> isHoliday H d") simp_all
qed

subsection \<open>Holidays on fixed dates\<close>

lemma getDay_range: "0 \<le> getDay t \<and> getDay t \<le> 6"
  by (simp add: getDay_def)



subsection \<open>The PTO dates and the balance\<close>

lemma set_getAllPTODates:
  "set (getAllPTODates H cfg sel) =
     set sel \<union> {h \<in> set (map fst H). noon (startDate cfg) \<le> noon h
          \<and> noon h \<le> setMonth (noon (startDate cfg)) (getMonth (noon (startDate cfg)) + 12)}"
  by (auto simp: getAllPTODates_def Let_def)

lemma distinct_getAllPTODates: "distinct (getAllPTODates H cfg sel)"
  by (simp add: getAllPTODates_def Let_def)

lemma usedPTO_count:
  "length (filter P (getAllPTODates H cfg sel)) = card {d \<in> set (getAllPTODates H cfg sel). P d}"
proof -
  have "{d \<in> set (getAllPTODates H cfg sel). P d} = {x. P x} \<inter> set (getAllPTODates H cfg sel)"
    by blast
  then show ?thesis
    using distinct_length_filter [OF distinct_getAllPTODates, of P H cfg sel] by simp
qed

lemma getPTOBalanceAtDate_from_start:
  assumes "startDate cfg \<le> t"
  shows "getPTOBalanceAtDate H cfg sel t =
     startingPTO cfg + of_nat (length (getAccrualDates cfg (startDate cfg) t)) * accrualAmount cfg
       - of_nat (card {d \<in> set (getAllPTODates H cfg sel). d \<le> t}) * 8"
  using assms
  by (simp add: getPTOBalanceAtDate_def Let_def noon_less_iff noon_le_iff usedPTO_count)




subsection \<open>Twelve months ahead\<close>

lemma TimeWithinDay_noon: "TimeWithinDay (noon s) = 12 * 60 * 60 * 1000"
proof -
  have "(s * msPerDay + 43200000) mod msPerDay = 43200000"
    by (rule int_mod_pos_eq [of _ _ s]) (simp_all add: msPerDay_def)
  then show ?thesis by (simp add: TimeWithinDay_def noon_def)
qed

lemma monthOffset_leap: "monthOffset m False \<le> monthOffset m True"
  by (simp add: monthOffset_def)

lemma monthOffset_leap_bound: "monthOffset m True \<le> monthOffset m False + 1"
  by (simp add: monthOffset_def)

lemma MakeDay_month_in_year:
  assumes "0 \<le> m" and "m \<le> 11"
  shows "MakeDay y m dt = DayFromYear y + monthOffset m (InLeapYear y) + dt - 1"
    and "MakeDay y (m + 12) dt = DayFromYear (y + 1) + monthOffset m (InLeapYear (y + 1)) + dt - 1"
proof -
  have m: "0 \<le> m" "m < 12" using assms by simp_all
  have d0: "m div 12 = 0" using m by (rule div_pos_pos_trivial)
  have m0: "m mod 12 = m" using m by (rule mod_pos_pos_trivial)
  have e: "m + 12 = 12 * 1 + m" by simp
  have d1: "(m + 12) div 12 = 1" by (rule int_div_pos_eq [OF e m])
  have m1: "(m + 12) mod 12 = m" by (rule int_mod_pos_eq [OF e m])
  show "MakeDay y m dt = DayFromYear y + monthOffset m (InLeapYear y) + dt - 1"
    unfolding MakeDay_def Let_def d0 m0 by simp
  show "MakeDay y (m + 12) dt = DayFromYear (y + 1) + monthOffset m (InLeapYear (y + 1)) + dt - 1"
    unfolding MakeDay_def Let_def d1 m1 by simp
qed

lemma MakeDay_next_year:
  assumes "0 \<le> m" and "m \<le> 11"
  shows "MakeDay y m dt < MakeDay y (m + 12) dt"
proof -
  have a: "monthOffset m (InLeapYear y) \<le> monthOffset m False + 1"
    using monthOffset_leap_bound [of m] by (cases "InLeapYear y") simp_all
  have b: "monthOffset m False \<le> monthOffset m (InLeapYear (y + 1))"
    using monthOffset_leap [of m] by (cases "InLeapYear (y + 1)") simp_all
  have c: "DayFromYear y + 365 \<le> DayFromYear (y + 1)"
    unfolding DayFromYear_Suc by simp
  show ?thesis
    unfolding MakeDay_month_in_year [OF assms] using a b c by linarith
qed

lemma setMonth_noon_12:
  "setMonth (noon s) (getMonth (noon s) + 12)
     = noon (MakeDay (YearFromDay s) (MonthFromDay s + 12) (DateFromDay s))"
  unfolding setMonth_def getMonth_def getFullYear_def getDate_def Day_noon TimeWithinDay_noon
  by (simp add: noon_def)

lemma twelve_months_ahead: "noon s < setMonth (noon s) (getMonth (noon s) + 12)"
proof -
  have r: "0 \<le> MonthFromDay s" "MonthFromDay s \<le> 11"
    using MonthFromDay_range [of s] by simp_all
  have "MakeDay (YearFromDay s) (MonthFromDay s) (DateFromDay s + 0) = s + 0"
    by (rule MakeDay_inverse)
  then have "s < MakeDay (YearFromDay s) (MonthFromDay s + 12) (DateFromDay s)"
    using MakeDay_next_year [OF r, of "YearFromDay s" "DateFromDay s"] by simp
  then show ?thesis
    unfolding setMonth_noon_12 by (simp only: noon_less_iff)
qed

subsection \<open>The balance at the as-of date\<close>

lemma length_getAccrualDates_at:
  "length (getAccrualDates cfg a a) =
     (if firstAccrualDate cfg \<le> a \<and> (a - firstAccrualDate cfg) mod 14 = 0 then 1 else 0)"
proof -
  define g where "g = (firstAccrualDate cfg \<le> a \<and> (a - firstAccrualDate cfg) mod 14 = 0)"
  have "{d. a \<le> d \<and> d \<le> a \<and> P d} = (if P a then {a} else {})" for P :: "int \<Rightarrow> bool"
    by auto
  then have "{d. a \<le> d \<and> d \<le> a \<and> firstAccrualDate cfg \<le> d \<and> (d - firstAccrualDate cfg) mod 14 = 0}
          = (if g then {a} else {})"
    unfolding g_def .
  then have s: "set (getAccrualDates cfg a a) = (if g then {noon a} else {})"
    unfolding set_getAccrualDates by simp
  have "distinct (getAccrualDates cfg a a)"
    using sorted_getAccrualDates [of cfg a a] by (simp only: strict_sorted_iff)
  then have "length (getAccrualDates cfg a a) = card (set (getAccrualDates cfg a a))"
    by (simp only: distinct_card)
  then show ?thesis unfolding s g_def [symmetric] by simp
qed

text \<open>
  C1 (as stated): the balance at the as-of date is the starting balance, for every
  configuration and selection. This fails: the comparisons with the as-of date are
  inclusive, so a selected date on the as-of date costs 8 hours, and an accrual on the
  as-of date is added.
\<close>

theorem C1_balance_at_asOfDate_counterexample:
  "getPTOBalanceAtDate catalog defaultConfig [iso 2026 1 9] (startDate defaultConfig)
      \<noteq> startingPTO defaultConfig
   \<and> getPTOBalanceAtDate catalog (defaultConfig\<lparr>firstAccrualDate := iso 2026 1 9\<rparr>) []
        (startDate (defaultConfig\<lparr>firstAccrualDate := iso 2026 1 9\<rparr>))
      \<noteq> startingPTO (defaultConfig\<lparr>firstAccrualDate := iso 2026 1 9\<rparr>)"
  by code_simp

text \<open>
  C1 (amended): when no selected date lies before the as-of date, the balance at the as-of
  date is the starting balance, plus one accrual if the as-of date is an accrual date,
  minus 8 if the as-of date is a selected date or a holiday; so it is exactly the starting
  balance when the as-of date is none of these.
\<close>

theorem C1_balance_at_asOfDate:
  assumes "\<forall>d \<in> set sel. startDate cfg \<le> d"
  shows "getPTOBalanceAtDate H cfg sel (startDate cfg) =
     startingPTO cfg
       + (if firstAccrualDate cfg \<le> startDate cfg
             \<and> (startDate cfg - firstAccrualDate cfg) mod 14 = 0
          then accrualAmount cfg else 0)
       - (if startDate cfg \<in> set sel \<or> isHoliday H (startDate cfg) then 8 else 0)"
proof -
  let ?a = "startDate cfg"
  let ?A = "set (getAllPTODates H cfg sel)"
  define g where "g = (firstAccrualDate cfg \<le> ?a \<and> (?a - firstAccrualDate cfg) mod 14 = 0)"
  have ge: "\<forall>d \<in> ?A. ?a \<le> d"
    using assms by (auto simp: set_getAllPTODates noon_le_iff)
  have mem: "?a \<in> ?A \<longleftrightarrow> ?a \<in> set sel \<or> isHoliday H ?a"
    using twelve_months_ahead [of ?a] by (auto simp: set_getAllPTODates isHoliday_def)
  have "{d \<in> ?A. d \<le> ?a} = (if ?a \<in> ?A then {?a} else {})"
    using ge by (auto split: if_splits)
  then have c: "card {d \<in> ?A. d \<le> ?a} = (if ?a \<in> set sel \<or> isHoliday H ?a then 1 else 0)"
    unfolding mem by simp
  have l: "length (getAccrualDates cfg ?a ?a) = (if g then 1 else 0)"
    unfolding g_def by (rule length_getAccrualDates_at)
  show ?thesis
    unfolding getPTOBalanceAtDate_from_start [OF order_refl] c l g_def [symmetric]
    by (cases g; cases "?a \<in> set sel \<or> isHoliday H ?a") simp_all
qed

theorem C1_balance_at_asOfDate_witness:
  "startDate defaultConfig \<le> iso 2026 1 9 \<and> startDate defaultConfig \<le> iso 2026 1 12
   \<and> getPTOBalanceAtDate catalog defaultConfig [iso 2026 1 9, iso 2026 1 12]
         (startDate defaultConfig) = startingPTO defaultConfig - 8
   \<and> getPTOBalanceAtDate catalog defaultConfig [] (startDate defaultConfig)
       = startingPTO defaultConfig"
proof -
  have h1: "startDate defaultConfig \<le> iso 2026 1 9"
    and h2: "startDate defaultConfig \<le> iso 2026 1 12" by code_simp+
  then have h: "\<forall>d \<in> set [iso 2026 1 9, iso 2026 1 12]. startDate defaultConfig \<le> d"
    by simp
  have g: "\<not> (firstAccrualDate defaultConfig \<le> startDate defaultConfig
             \<and> (startDate defaultConfig - firstAccrualDate defaultConfig) mod 14 = 0)"
    by code_simp
  have s: "startDate defaultConfig \<in> set [iso 2026 1 9, iso 2026 1 12]" by code_simp
  have a: "getPTOBalanceAtDate catalog defaultConfig [iso 2026 1 9, iso 2026 1 12]
         (startDate defaultConfig) = startingPTO defaultConfig - 8"
    unfolding C1_balance_at_asOfDate [OF h] using g s by (simp only: if_True if_False) simp
  have b: "getPTOBalanceAtDate catalog defaultConfig [] (startDate defaultConfig)
       = startingPTO defaultConfig"
    by code_simp
  show ?thesis by (rule conjI [OF h1 conjI [OF h2 conjI [OF a b]]])
qed

subsection \<open>Holidays before the as-of date\<close>

lemma catalog_holidays_are_weekdays:
  assumes "isHoliday catalog h"
  shows "getDay (h * msPerDay) \<noteq> 0 \<and> getDay (h * msPerDay) \<noteq> 6"
proof -
  from assms have "h \<in> set (map fst catalog)" by (simp only: isHoliday_def)
  then show ?thesis
    unfolding catalog_eq getDay_midnight by (simp only: list.map fst_conv) auto
qed

lemma sortedPTO_timelineOf:
  "set (sortedPTO (timelineOf H cfg sel months)) = set (getAllPTODates H cfg sel)"
  by (simp add: timelineOf_def Let_def split: prod.splits)

lemma currentType_segmentStep:
  "currentType (segmentStep tml st) =
     (let day = getDay (currentDate st) in
      if (if day = 0 \<or> day = 6 then isWeekendPTO (sortedPTO tml) (currentDate st)
          else toISODate (currentDate st) \<in> set (sortedPTO tml))
      then Pto else Work)"
  by (simp add: segmentStep_def Let_def)

lemma getAllPTODates_without_holiday:
  assumes "h < startDate cfg"
  shows "getAllPTODates (filter (\<lambda>e. fst e \<noteq> h) H) cfg sel = getAllPTODates H cfg sel"
proof -
  let ?P = "\<lambda>dateStr. noon (startDate cfg) \<le> noon dateStr
      \<and> noon dateStr \<le> setMonth (noon (startDate cfg)) (getMonth (noon (startDate cfg)) + 12)"
  have "filter ?P (map fst (filter (\<lambda>e. fst e \<noteq> h) H)) = filter ?P (map fst H)"
    using assms by (induction H) (auto simp: noon_le_iff)
  then show ?thesis by (simp add: getAllPTODates_def Let_def)
qed

text \<open>
  C9: a holiday of the catalog that the user has not selected is among the PTO dates
  exactly when it lies between the as-of date and the same day twelve months later, both
  included. A holiday before the as-of date is therefore not a PTO date, even if the
  window shows it: the day loop of the segmenter gives its day the type \<open>work\<close>, and every
  balance is what it would be without that holiday in the catalog.
\<close>

theorem C9_holiday_inclusion:
  assumes "isHoliday catalog h" and "h \<notin> set sel"
  shows "(h \<in> set (getAllPTODates catalog cfg sel) \<longleftrightarrow>
            noon (startDate cfg) \<le> noon h
            \<and> noon h \<le> setMonth (noon (startDate cfg)) (getMonth (noon (startDate cfg)) + 12))
    \<and> (h < startDate cfg \<longrightarrow>
          h \<notin> set (getAllPTODates catalog cfg sel)
          \<and> (\<forall>months st. currentDate st = h * msPerDay \<longrightarrow>
                currentType (segmentStep (timelineOf catalog cfg sel months) st) = Work)
          \<and> (\<forall>t. getPTOBalanceAtDate catalog cfg sel t
                 = getPTOBalanceAtDate (filter (\<lambda>e. fst e \<noteq> h) catalog) cfg sel t))"
proof (intro conjI impI allI)
  show m: "h \<in> set (getAllPTODates catalog cfg sel) \<longleftrightarrow>
            noon (startDate cfg) \<le> noon h
            \<and> noon h \<le> setMonth (noon (startDate cfg)) (getMonth (noon (startDate cfg)) + 12)"
    using assms by (auto simp: set_getAllPTODates isHoliday_def)
  {
    assume b: "h < startDate cfg"
    then show n: "h \<notin> set (getAllPTODates catalog cfg sel)"
      unfolding m by (simp add: noon_le_iff)
    fix months :: int and st :: segState
    assume c: "currentDate st = h * msPerDay"
    show "currentType (segmentStep (timelineOf catalog cfg sel months) st) = Work"
      using catalog_holidays_are_weekdays [OF assms(1)] n
      by (simp add: currentType_segmentStep c sortedPTO_timelineOf toISODate_midnight)
  }
  {
    fix t
    assume b: "h < startDate cfg"
    show "getPTOBalanceAtDate catalog cfg sel t
            = getPTOBalanceAtDate (filter (\<lambda>e. fst e \<noteq> h) catalog) cfg sel t"
      unfolding getPTOBalanceAtDate_def getAllPTODates_without_holiday [OF b] ..
  }
qed

theorem C9_holiday_inclusion_witness:
  "isHoliday catalog (iso 2026 1 1) \<and> iso 2026 1 1 \<notin> set []
   \<and> iso 2026 1 1 < startDate defaultConfig
   \<and> fst (timelineRange defaultConfig 6) \<le> iso 2026 1 1 * msPerDay
   \<and> iso 2026 1 1 * msPerDay \<le> snd (timelineRange defaultConfig 6)
   \<and> iso 2026 1 1 \<notin> set (getAllPTODates catalog defaultConfig [])
   \<and> currentType (segmentStep (timelineOf catalog defaultConfig [] 6)
         \<lparr> segments = [], thresholdDates = [], currentDate = iso 2026 1 1 * msPerDay,
           segmentStart = iso 2026 1 1 * msPerDay, currentType = Work,
           currentBalance = 2351 / 100, currentHasHighBalance = False \<rparr>) = Work
   \<and> getPTOBalanceAtDate catalog defaultConfig [] (iso 2026 6 30)
       = getPTOBalanceAtDate (filter (\<lambda>e. fst e \<noteq> iso 2026 1 1) catalog) defaultConfig []
           (iso 2026 6 30)"
proof -
  let ?st = "\<lparr> segments = [], thresholdDates = [], currentDate = iso 2026 1 1 * msPerDay,
           segmentStart = iso 2026 1 1 * msPerDay, currentType = Work,
           currentBalance = 2351 / 100, currentHasHighBalance = False \<rparr>"
  have h1: "isHoliday catalog (iso 2026 1 1)" by code_simp
  have h2: "iso 2026 1 1 \<notin> set []" by simp
  have h3: "iso 2026 1 1 < startDate defaultConfig" by code_simp
  have w1: "fst (timelineRange defaultConfig 6) \<le> iso 2026 1 1 * msPerDay" by code_simp
  have w2: "iso 2026 1 1 * msPerDay \<le> snd (timelineRange defaultConfig 6)" by code_simp
  have cd: "currentDate ?st = iso 2026 1 1 * msPerDay" by simp
  note c = mp [OF conjunct2 [OF C9_holiday_inclusion [OF h1 h2, of defaultConfig]] h3]
  have n: "iso 2026 1 1 \<notin> set (getAllPTODates catalog defaultConfig [])"
    by (rule conjunct1 [OF c])
  have t: "currentType (segmentStep (timelineOf catalog defaultConfig [] 6) ?st) = Work"
    by (rule mp [OF spec [OF spec [OF conjunct1 [OF conjunct2 [OF c]]]] cd])
  have b: "getPTOBalanceAtDate catalog defaultConfig [] (iso 2026 6 30)
       = getPTOBalanceAtDate (filter (\<lambda>e. fst e \<noteq> iso 2026 1 1) catalog) defaultConfig []
           (iso 2026 6 30)"
    by (rule spec [OF conjunct2 [OF conjunct2 [OF c]]])
  show ?thesis
    by (rule conjI [OF h1 conjI [OF h2 conjI [OF h3 conjI [OF w1 conjI [OF w2
          conjI [OF n conjI [OF t b]]]]]]])
qed

text \<open>The selection never holds a holiday, once it holds none: \<open>toggleDate\<close> leaves the
  selection as it is on a holiday.\<close>

lemma toggleDate_no_holiday:
  assumes "\<forall>d \<in> set sel. \<not> isHoliday H d"
  shows "\<forall>d \<in> set (toggleDate H sel t). \<not> isHoliday H d"
  using assms by (auto simp: toggleDate_def Let_def)

subsection \<open>The balance curve\<close>

lemma fst_eventStep:
  "fst (eventStep tml d (b, m, ps)) =
     (if d = startDateStr tml then b else b + get_or0 (balanceChanges tml) d)"
  by (simp add: eventStep_def Let_def)

lemma fold_eventStep_balance:
  "fst (fold (eventStep tml) ds (b, m, ps)) =
     b + sum_list (map (get_or0 (balanceChanges tml)) (filter (\<lambda>d. d \<noteq> startDateStr tml) ds))"
proof (induction ds arbitrary: b m ps)
  case Nil
  show ?case by simp
next
  case (Cons d ds)
  obtain b' m' ps' where e: "eventStep tml d (b, m, ps) = (b', m', ps')"
    by (cases "eventStep tml d (b, m, ps)") auto
  have b': "b' = (if d = startDateStr tml then b else b + get_or0 (balanceChanges tml) d)"
    using fst_eventStep [of tml d b m ps] by (simp add: e)
  show ?case
    using Cons.IH [of b' m' ps'] by (simp add: e b' add.assoc)
qed

lemma fold_eventStep_points:
  assumes "ps \<noteq> []"
  shows "snd (snd (fold (eventStep tml) ds (b, m, ps))) \<noteq> []
    \<and> pointDate (last (snd (snd (fold (eventStep tml) ds (b, m, ps)))))
         \<in> insert (pointDate (last ps)) (set ds)"
  using assms
proof (induction ds arbitrary: b m ps)
  case Nil
  then show ?case by simp
next
  case (Cons d ds)
  obtain b' m' ps' where e: "eventStep tml d (b, m, ps) = (b', m', ps')"
    by (cases "eventStep tml d (b, m, ps)") auto
  have p: "ps' \<noteq> [] \<and> pointDate (last ps') \<in> {pointDate (last ps), d}"
    using e Cons.prems by (auto simp: eventStep_def Let_def split: if_splits)
  then have n: "ps' \<noteq> []" by simp
  from Cons.IH [OF n, of b' m'] p show ?case
    by (auto simp: e)
qed

lemma startDateStr_in_allEventDates: "startDateStr tml \<in> set (allEventDates tml)"
  by (simp add: allEventDates_def)

lemma fold_changes_distinct:
  assumes "distinct ds"
  shows "get_or0 (fold (\<lambda>d m. m(d \<mapsto> get_or0 m d + c)) ds m0) x
           = get_or0 m0 x + (if x \<in> set ds then c else 0)"
  using assms
proof (induction ds arbitrary: m0)
  case Nil
  show ?case by simp
next
  case (Cons d ds)
  then show ?case by (auto simp: get_or0_def)
qed

lemma toISODate_accrualDates:
  "map toISODate (getAccrualDates cfg s e) = map Day (getAccrualDates cfg s e)"
  by (simp add: toISODate_def)

lemma distinct_accrual_days: "distinct (map toISODate (getAccrualDates cfg s e))"
proof -
  have d: "distinct (getAccrualDates cfg s e)"
    using sorted_getAccrualDates [of cfg s e] by (simp only: strict_sorted_iff)
  have "inj_on toISODate (set (getAccrualDates cfg s e))"
  proof (rule inj_onI)
    fix x y assume "x \<in> set (getAccrualDates cfg s e)" "y \<in> set (getAccrualDates cfg s e)"
      and q: "toISODate x = toISODate y"
    then obtain a b where "x = noon a" "y = noon b"
      unfolding set_getAccrualDates by (elim imageE) blast
    with q show "x = y" by (simp add: toISODate_noon)
  qed
  with d show ?thesis by (simp only: distinct_map simp_thms)
qed

lemma accrual_day_mem:
  "d \<in> set (map toISODate (getAccrualDates cfg s e)) \<longleftrightarrow> noon d \<in> set (getAccrualDates cfg s e)"
proof
  assume "d \<in> set (map toISODate (getAccrualDates cfg s e))"
  then obtain x where x: "x \<in> set (getAccrualDates cfg s e)" "d = toISODate x" by auto
  then obtain a where "x = noon a" unfolding set_getAccrualDates by (elim imageE) blast
  with x show "noon d \<in> set (getAccrualDates cfg s e)" by (simp add: toISODate_noon)
next
  assume "noon d \<in> set (getAccrualDates cfg s e)"
  then have "toISODate (noon d) \<in> set (map toISODate (getAccrualDates cfg s e))"
    by (simp only: set_map) (rule imageI)
  then show "d \<in> set (map toISODate (getAccrualDates cfg s e))"
    by (simp only: toISODate_noon)
qed

text \<open>What \<open>balanceChanges\<close> holds for a date: the accrual of the day, if there is one in
  the window, minus 8 if the day is a PTO date.\<close>

lemma get_or0_balanceChanges:
  "get_or0 (balanceChanges (timelineOf H cfg sel months)) d =
     (if noon d \<in> set (accrualDates (timelineOf H cfg sel months)) then accrualAmount cfg else 0)
     - (if d \<in> set (getAllPTODates H cfg sel) then 8 else 0)"
proof -
  obtain tStart tEnd where r: "timelineRange cfg months = (tStart, tEnd)"
    by (cases "timelineRange cfg months")
  let ?acc = "getAccrualDates cfg (startDate cfg) (toISODate tEnd)"
  let ?pto = "sort (getAllPTODates H cfg sel)"
  have f1: "fold (\<lambda>d m. let key = toISODate d in m(key \<mapsto> get_or0 m key + accrualAmount cfg)) ?acc m0
      = fold (\<lambda>d m. m(d \<mapsto> get_or0 m d + accrualAmount cfg)) (map toISODate ?acc) m0" for m0
    by (simp add: fold_map comp_def Let_def)
  have f2: "fold (\<lambda>d m. m(d \<mapsto> get_or0 m d - 8)) ?pto m0
      = fold (\<lambda>d m. m(d \<mapsto> get_or0 m d + (- 8))) ?pto m0" for m0
    by simp
  have dp: "distinct ?pto" by (simp add: distinct_getAllPTODates)
  have e0: "get_or0 Map.empty d = 0" by (simp add: get_or0_def)
  have b: "balanceChanges (timelineOf H cfg sel months) =
      fold (\<lambda>d m. m(d \<mapsto> get_or0 m d + (- 8))) ?pto
        (fold (\<lambda>d m. m(d \<mapsto> get_or0 m d + accrualAmount cfg)) (map toISODate ?acc) Map.empty)"
    unfolding f1 [symmetric] f2 [symmetric] by (simp add: timelineOf_def r Let_def)
  have a: "accrualDates (timelineOf H cfg sel months) = ?acc"
    by (simp add: timelineOf_def r Let_def)
  show ?thesis
    unfolding b a fold_changes_distinct [OF dp] fold_changes_distinct [OF distinct_accrual_days]
      e0 accrual_day_mem
    by simp
qed

text \<open>
  C10: when no event date is the last day of the window, the balance points end with a
  point at the last day, at position 100, and its balance is the running balance after
  every event date of the event set other than the first day of the window, whether the
  date is inside the window or after it. Every PTO date after the first day of the window
  is such an event date and takes 8 hours off, so the holidays between the end of the
  window and twelve months after the as-of date are in that balance; it is not the balance
  at the last day itself.
\<close>

theorem C10_final_balance_point:
  assumes "tml = timelineOf H cfg sel months"
    and "toISODate (rangeEnd tml) \<notin> set (allEventDates tml)"
  shows "last (balancePoints H cfg sel months) =
      \<lparr> pointDate = toISODate (rangeEnd tml),
        pointBalance = startingBalance tml
          + sum_list (map (get_or0 (balanceChanges tml))
              (filter (\<lambda>d. d \<noteq> startDateStr tml) (allEventDates tml))),
        pointPosition = 100 \<rparr>
    \<and> (\<forall>d \<in> set (getAllPTODates H cfg sel). startDateStr tml < d \<longrightarrow>
          d \<in> set (filter (\<lambda>d. d \<noteq> startDateStr tml) (allEventDates tml))
          \<and> get_or0 (balanceChanges tml) d =
               (if noon d \<in> set (accrualDates tml) then accrualAmount cfg else 0) - 8)"
proof (intro conjI ballI impI)
  let ?p0 = "\<lparr> pointDate = startDateStr tml, pointBalance = startingBalance tml,
               pointPosition = 0 \<rparr>"
  obtain b m ps where f: "fold (eventStep tml) (allEventDates tml)
      (startingBalance tml, startingBalance tml, [?p0]) = (b, m, ps)"
    by (cases "fold (eventStep tml) (allEventDates tml)
      (startingBalance tml, startingBalance tml, [?p0])") auto
  have bal: "b = startingBalance tml
          + sum_list (map (get_or0 (balanceChanges tml))
              (filter (\<lambda>d. d \<noteq> startDateStr tml) (allEventDates tml)))"
    using fold_eventStep_balance [of tml "allEventDates tml" "startingBalance tml"
        "startingBalance tml" "[?p0]"] by (simp add: f)
  have "ps \<noteq> [] \<and> pointDate (last ps) \<in> insert (pointDate (last [?p0])) (set (allEventDates tml))"
    using fold_eventStep_points [of "[?p0]" tml "allEventDates tml" "startingBalance tml"
        "startingBalance tml"] by (simp add: f)
  then have ps: "ps \<noteq> []" and "pointDate (last ps) \<in> set (allEventDates tml)"
    using startDateStr_in_allEventDates [of tml] by auto
  with assms(2) have ne: "pointDate (last ps) \<noteq> toISODate (rangeEnd tml)" by auto
  show "last (balancePoints H cfg sel months) =
      \<lparr> pointDate = toISODate (rangeEnd tml),
        pointBalance = startingBalance tml
          + sum_list (map (get_or0 (balanceChanges tml))
              (filter (\<lambda>d. d \<noteq> startDateStr tml) (allEventDates tml))),
        pointPosition = 100 \<rparr>"
    unfolding balancePoints_def assms(1) [symmetric] balancePointsOf_def Let_def f
    using ne ps bal by simp
next
  fix d assume d: "d \<in> set (getAllPTODates H cfg sel)" "startDateStr tml < d"
  have "sortedPTO tml = sort (getAllPTODates H cfg sel)"
    unfolding assms(1) by (simp add: timelineOf_def Let_def split: prod.splits)
  with d show "d \<in> set (filter (\<lambda>d. d \<noteq> startDateStr tml) (allEventDates tml))"
    by (simp add: allEventDates_def)
  show "get_or0 (balanceChanges tml) d =
               (if noon d \<in> set (accrualDates tml) then accrualAmount cfg else 0) - 8"
    unfolding assms(1) get_or0_balanceChanges using d(1) by simp
qed

theorem C10_final_balance_point_witness:
  "toISODate (rangeEnd (timelineOf catalog defaultConfig [] 6))
      \<notin> set (allEventDates (timelineOf catalog defaultConfig [] 6))
   \<and> toISODate (rangeEnd (timelineOf catalog defaultConfig [] 6)) = iso 2026 6 30
   \<and> last (balancePoints catalog defaultConfig [] 6)
       = \<lparr> pointDate = iso 2026 6 30, pointBalance = 10047 / 100, pointPosition = 100 \<rparr>
   \<and> getPTOBalanceAtDate catalog defaultConfig [] (iso 2026 6 30) = 14047 / 100"
proof -
  have h: "toISODate (rangeEnd (timelineOf catalog defaultConfig [] 6))
      \<notin> set (allEventDates (timelineOf catalog defaultConfig [] 6))"
    by code_simp
  have e: "toISODate (rangeEnd (timelineOf catalog defaultConfig [] 6)) = iso 2026 6 30"
    by code_simp
  have s: "startingBalance (timelineOf catalog defaultConfig [] 6)
          + sum_list (map (get_or0 (balanceChanges (timelineOf catalog defaultConfig [] 6)))
              (filter (\<lambda>d. d \<noteq> startDateStr (timelineOf catalog defaultConfig [] 6))
                 (allEventDates (timelineOf catalog defaultConfig [] 6)))) = 10047 / 100"
    by code_simp
  have b: "getPTOBalanceAtDate catalog defaultConfig [] (iso 2026 6 30) = 14047 / 100"
    by code_simp
  have "last (balancePoints catalog defaultConfig [] 6)
       = \<lparr> pointDate = iso 2026 6 30, pointBalance = 10047 / 100, pointPosition = 100 \<rparr>"
    using C10_final_balance_point [OF refl h] unfolding e s by (rule conjunct1)
  with h e b show ?thesis by (intro conjI)
qed

subsection \<open>The background segments\<close>











subsection \<open>The window is not empty\<close>




















end
